theory Spec2Isabelle
  imports Complex_Main
begin

section \<open>Strings of code points\<close>

text \<open>
  A Python \<open>str\<close> is a sequence of Unicode code points; the bullet glyphs of the
  detector lie outside the 8-bit \<open>char\<close> of HOL, so a string is modelled as a list of
  code points (natural numbers). \<open>ustr\<close> embeds an ASCII literal.
\<close>

type_synonym uchar = nat
type_synonym ustring = "uchar list"

definition ustr :: "string \<Rightarrow> ustring" where
  "ustr s = map of_char s"

text \<open>
  \<open>str.isspace\<close>, \<open>str.strip\<close> and the regular-expression class \<open>\s\<close> share one
  table of white-space code points in CPython.
\<close>

definition whitespace_chars :: "uchar list" where
  "whitespace_chars =
     [0x09, 0x0A, 0x0B, 0x0C, 0x0D, 0x1C, 0x1D, 0x1E, 0x1F, 0x20, 0x85, 0xA0, 0x1680,
      0x2000, 0x2001, 0x2002, 0x2003, 0x2004, 0x2005, 0x2006, 0x2007, 0x2008, 0x2009,
      0x200A, 0x2028, 0x2029, 0x202F, 0x205F, 0x3000]"

definition is_space :: "uchar \<Rightarrow> bool" where
  "is_space c = (c \<in> set whitespace_chars)"

text \<open>
  The class \<open>\d\<close> of a \<open>str\<close> pattern is the Unicode category Nd, which comes in blocks
  of ten consecutive code points with the values 0 to 9; \<open>int\<close> reads exactly these
  characters as decimal digits. The list holds the first code point of every block.
\<close>

definition decimal_blocks :: "uchar list" where
  "decimal_blocks =
     [0x30, 0x660, 0x6F0, 0x7C0, 0x966, 0x9E6, 0xA66, 0xAE6, 0xB66, 0xBE6, 0xC66, 0xCE6,
      0xD66, 0xDE6, 0xE50, 0xED0, 0xF20, 0x1040, 0x1090, 0x17E0, 0x1810, 0x1946, 0x19D0,
      0x1A80, 0x1A90, 0x1B50, 0x1BB0, 0x1C40, 0x1C50, 0xA620, 0xA8D0, 0xA900, 0xA9D0,
      0xA9F0, 0xAA50, 0xABF0, 0xFF10, 0x104A0, 0x10D30, 0x11066, 0x110F0, 0x11136,
      0x111D0, 0x112F0, 0x11450, 0x114D0, 0x11650, 0x116C0, 0x11730, 0x118E0, 0x11950,
      0x11C50, 0x11D50, 0x11DA0, 0x16A60, 0x16AC0, 0x16B50, 0x1D7CE, 0x1D7D8, 0x1D7E2,
      0x1D7EC, 0x1D7F6, 0x1E140, 0x1E2F0, 0x1E950, 0x1FBF0]"

definition decimal_value :: "uchar \<Rightarrow> nat option" where
  "decimal_value c =
     (case find (\<lambda>s. s \<le> c \<and> c < s + 10) decimal_blocks of
        None \<Rightarrow> None
      | Some s \<Rightarrow> Some (c - s))"

definition is_decimal :: "uchar \<Rightarrow> bool" where
  "is_decimal c = (decimal_value c \<noteq> None)"

definition is_ascii_letter :: "uchar \<Rightarrow> bool" where
  "is_ascii_letter c = ((97 \<le> c \<and> c \<le> 122) \<or> (65 \<le> c \<and> c \<le> 90))"

text \<open>
  \<open>str.lower\<close> and \<open>str.upper\<close> on the ASCII letters, the only characters the detector
  applies them to (a match of \<open>[a-zA-Z]\<close>, a match of the Roman pattern, the output of
  \<open>_int_to_roman\<close>); other code points are left as they are.
\<close>

definition to_lower :: "uchar \<Rightarrow> uchar" where
  "to_lower c = (if 65 \<le> c \<and> c \<le> 90 then c + 32 else c)"

definition to_upper :: "uchar \<Rightarrow> uchar" where
  "to_upper c = (if 97 \<le> c \<and> c \<le> 122 then c - 32 else c)"

definition lower :: "ustring \<Rightarrow> ustring" where
  "lower s = map to_lower s"

definition upper :: "ustring \<Rightarrow> ustring" where
  "upper s = map to_upper s"

definition lstrip :: "ustring \<Rightarrow> ustring" where
  "lstrip s = dropWhile is_space s"

definition strip :: "ustring \<Rightarrow> ustring" where
  "strip s = rev (dropWhile is_space (rev (dropWhile is_space s)))"

text \<open>\<open>text.find(bullet)\<close> for a one-character \<open>bullet\<close>: the first position, or -1.\<close>

fun str_find :: "ustring \<Rightarrow> uchar \<Rightarrow> int" where
  "str_find [] b = -1"
| "str_find (c # cs) b =
     (if c = b then 0 else (let r = str_find cs b in if r < 0 then -1 else r + 1))"

section \<open>Errors and integer conversion\<close>

datatype error = ValueError | TypeError | IndexError

text \<open>
  CPython refuses to convert between \<open>int\<close> and a decimal string of more than
  \<open>sys.int_info.default_max_str_digits\<close> = 4300 digits, in both directions, with a
  ValueError. Leading zeros count.
\<close>

definition max_str_digits :: nat where
  "max_str_digits = 4300"

fun digits_value :: "ustring \<Rightarrow> nat \<Rightarrow> nat" where
  "digits_value [] acc = acc"
| "digits_value (c # cs) acc =
     digits_value cs (10 * acc + (case decimal_value c of Some d \<Rightarrow> d | None \<Rightarrow> 0))"

text \<open>\<open>int(s)\<close> on a string of decimal digits (no sign, no underscore, no blanks).\<close>

definition py_int :: "ustring \<Rightarrow> error + int" where
  "py_int s =
     (if s = [] \<or> \<not> list_all is_decimal s then Inl ValueError
      else if max_str_digits < length s then Inl ValueError
      else Inr (int (digits_value s 0)))"

fun nat_digits :: "nat \<Rightarrow> ustring" where
  "nat_digits n = (if n < 10 then [48 + n] else nat_digits (n div 10) @ [48 + n mod 10])"

declare nat_digits.simps [simp del]

text \<open>\<open>str(i)\<close>, as the f-string formats an \<open>int\<close>.\<close>

definition py_str :: "int \<Rightarrow> error + ustring" where
  "py_str i =
     (let ds = nat_digits (nat \<bar>i\<bar>) in
      if max_str_digits < length ds then Inl ValueError
      else Inr ((if i < 0 then [45] else []) @ ds))"

section \<open>Data model\<close>

datatype ListType = NONE | BULLET | NUMBERED | LETTERED | ROMAN

record ListItemInfo =
  item_type :: ListType
  marker :: ustring
  content :: ustring
  level :: int
  index :: int
  is_continuation :: bool

text \<open>
  The group's own \<open>level\<close> field is named \<open>group_level\<close>, since two records cannot
  share a field name; the method \<open>is_continuation\<close> of the group is named
  \<open>ListGroup_is_continuation\<close>, the item having a field of that name.
\<close>

record ListGroup =
  items :: "ListItemInfo list"
  list_type :: ListType
  group_level :: int

definition add_item :: "ListGroup \<Rightarrow> ListItemInfo \<Rightarrow> ListGroup" where
  "add_item g item = g\<lparr>items := items g @ [item]\<rparr>"

definition ListGroup_is_continuation :: "ListGroup \<Rightarrow> ListItemInfo \<Rightarrow> bool" where
  "ListGroup_is_continuation g item =
     (item_type item = list_type g \<and> level item = group_level g)"

section \<open>Backtracking regular expressions\<close>

text \<open>
  A pattern maps the rest of the input to the rests that remain after each way of
  matching, in the order in which the backtracking matcher of \<open>re\<close> tries them: a greedy
  repetition tries the longest first, a lazy one the shortest, an alternation its
  branches from left to right. The first complete match is the one \<open>re\<close> reports.
\<close>

type_synonym rx = "ustring \<Rightarrow> ustring list"

definition rx_class :: "(uchar \<Rightarrow> bool) \<Rightarrow> rx" where
  "rx_class P s = (case s of [] \<Rightarrow> [] | c # cs \<Rightarrow> if P c then [cs] else [])"

definition rx_eps :: rx where
  "rx_eps s = [s]"

definition rx_seq :: "rx \<Rightarrow> rx \<Rightarrow> rx" where
  "rx_seq r1 r2 s = concat (map r2 (r1 s))"

definition rx_alt :: "rx \<Rightarrow> rx \<Rightarrow> rx" where
  "rx_alt r1 r2 s = r1 s @ r2 s"

text \<open>\<open>r?\<close>, greedy.\<close>

definition rx_opt :: "rx \<Rightarrow> rx" where
  "rx_opt r = rx_alt r rx_eps"

text \<open>\<open>r{0,n}\<close>, greedy.\<close>

primrec rx_upto :: "nat \<Rightarrow> rx \<Rightarrow> rx" where
  "rx_upto 0 r = rx_eps"
| "rx_upto (Suc n) r = rx_alt (rx_seq r (rx_upto n r)) rx_eps"

text \<open>A literal string.\<close>

primrec rx_lit :: "ustring \<Rightarrow> rx" where
  "rx_lit [] = rx_eps"
| "rx_lit (c # cs) = rx_seq (rx_class (\<lambda>x. x = c)) (rx_lit cs)"

text \<open>\<open>[class]*?\<close>, lazy: the shortest run first.\<close>

fun rx_star_lazy :: "(uchar \<Rightarrow> bool) \<Rightarrow> rx" where
  "rx_star_lazy P [] = [Nil]"
| "rx_star_lazy P (c # cs) = (c # cs) # (if P c then rx_star_lazy P cs else [])"

text \<open>\<open>[class]*\<close> and \<open>[class]+\<close>, greedy: the longest run first.\<close>

fun rx_star :: "(uchar \<Rightarrow> bool) \<Rightarrow> rx" where
  "rx_star P [] = [Nil]"
| "rx_star P (c # cs) = (if P c then rx_star P cs else []) @ [c # cs]"

definition rx_plus :: "(uchar \<Rightarrow> bool) \<Rightarrow> rx" where
  "rx_plus P = rx_seq (rx_class P) (rx_star P)"

text \<open>The lookahead \<open>(?=[class])\<close> consumes nothing.\<close>

definition rx_lookahead :: "(uchar \<Rightarrow> bool) \<Rightarrow> rx" where
  "rx_lookahead P s = (case s of [] \<Rightarrow> [] | c # cs \<Rightarrow> if P c then [s] else [])"

text \<open>
  Every pattern of the detector has the shape \<open>^ pre (grp) post\<close> with one group that
  the code reads. A match is recorded by three rests of the text: where group 1 starts,
  where group 1 ends, and where the whole match ends.
\<close>

type_synonym rx_match = "ustring \<times> ustring \<times> ustring"

definition rx_matches :: "rx \<Rightarrow> rx \<Rightarrow> rx \<Rightarrow> ustring \<Rightarrow> rx_match list" where
  "rx_matches pre grp post text =
     concat (map (\<lambda>a. concat (map (\<lambda>b. map (\<lambda>c. (a, b, c)) (post b)) (grp a))) (pre text))"

text \<open>\<open>pattern.match(text)\<close>: anchored at the start of the text.\<close>

definition re_match :: "rx \<Rightarrow> rx \<Rightarrow> rx \<Rightarrow> ustring \<Rightarrow> rx_match option" where
  "re_match pre grp post text =
     (case rx_matches pre grp post text of [] \<Rightarrow> None | m # _ \<Rightarrow> Some m)"

text \<open>\<open>match.group(0)\<close>, \<open>match.group(1)\<close> and \<open>text[match.end():]\<close>.\<close>

definition group0 :: "ustring \<Rightarrow> rx_match \<Rightarrow> ustring" where
  "group0 text m = (case m of (a, b, c) \<Rightarrow> take (length text - length c) text)"

definition group1 :: "rx_match \<Rightarrow> ustring" where
  "group1 m = (case m of (a, b, c) \<Rightarrow> take (length a - length b) a)"

definition after_match :: "rx_match \<Rightarrow> ustring" where
  "after_match m = (case m of (a, b, c) \<Rightarrow> c)"

section \<open>The detector\<close>

definition bullet_chars :: "uchar list" where
  "bullet_chars =
     [0x2022, 0x25CF, 0x25CB, 0x25A0, 0x25AA, 0x25AB, 0x2023, 0x2043, 0x204C, 0x204D,
      0x29BE, 0x29BF, 0x2D, 0x2A, 0x2B]"

definition BULLET_CHARS :: "uchar set" where
  "BULLET_CHARS = set bullet_chars"

text \<open>The character class of the bullet pattern, in the order of the source.\<close>

definition is_bullet_class :: "uchar \<Rightarrow> bool" where
  "is_bullet_class c =
     (c \<in> set [0x2022, 0x2D, 0x2A, 0x25CF, 0x25CB, 0x25A0, 0x25AA, 0x25AB, 0x2023, 0x2043,
               0x204C, 0x204D, 0x29BE, 0x29BF, 0x2B])"

definition is_dot_or_paren :: "uchar \<Rightarrow> bool" where
  "is_dot_or_paren c = (c = 0x2E \<or> c = 0x29)"

definition is_roman_letter :: "uchar \<Rightarrow> bool" where
  "is_roman_letter c = (c \<in> set (ustr ''MDCLXVI''))"

definition rx_ch :: "char \<Rightarrow> rx" where
  "rx_ch c = rx_class (\<lambda>x. x = of_char c)"

text \<open>\<open>M{0,4}(CM|CD|D?C{0,3})(XC|XL|L?X{0,3})(IX|IV|V?I{0,3})\<close>\<close>

definition rx_roman_numeral :: rx where
  "rx_roman_numeral =
     rx_seq (rx_upto 4 (rx_ch CHR ''M''))
    (rx_seq (rx_alt (rx_lit (ustr ''CM''))
            (rx_alt (rx_lit (ustr ''CD''))
                    (rx_seq (rx_opt (rx_ch CHR ''D'')) (rx_upto 3 (rx_ch CHR ''C'')))))
    (rx_seq (rx_alt (rx_lit (ustr ''XC''))
            (rx_alt (rx_lit (ustr ''XL''))
                    (rx_seq (rx_opt (rx_ch CHR ''L'')) (rx_upto 3 (rx_ch CHR ''X'')))))
            (rx_alt (rx_lit (ustr ''IX''))
            (rx_alt (rx_lit (ustr ''IV''))
                    (rx_seq (rx_opt (rx_ch CHR ''V'')) (rx_upto 3 (rx_ch CHR ''I'')))))))"

text \<open>The four compiled patterns.\<close>

definition bullet_pattern :: "ustring \<Rightarrow> rx_match option" where
  "bullet_pattern =
     re_match (rx_star_lazy is_space) (rx_class is_bullet_class) (rx_plus is_space)"

definition numbered_pattern :: "ustring \<Rightarrow> rx_match option" where
  "numbered_pattern =
     re_match (rx_star_lazy is_space) (rx_plus is_decimal)
       (rx_seq (rx_class is_dot_or_paren) (rx_plus is_space))"

definition lettered_pattern :: "ustring \<Rightarrow> rx_match option" where
  "lettered_pattern =
     re_match (rx_star_lazy is_space) (rx_class is_ascii_letter)
       (rx_seq (rx_class is_dot_or_paren) (rx_plus is_space))"

definition roman_pattern :: "ustring \<Rightarrow> rx_match option" where
  "roman_pattern =
     re_match (rx_seq (rx_star_lazy is_space) (rx_lookahead is_roman_letter))
       rx_roman_numeral
       (rx_seq (rx_class is_dot_or_paren) (rx_plus is_space))"

text \<open>The dictionary \<open>PATTERNS\<close>, in its insertion order, which is its iteration order.\<close>

definition PATTERNS :: "(ListType \<times> (ustring \<Rightarrow> rx_match option)) list" where
  "PATTERNS =
     [(BULLET, bullet_pattern), (NUMBERED, numbered_pattern),
      (LETTERED, lettered_pattern), (ROMAN, roman_pattern)]"

section \<open>Roman numerals\<close>

definition roman_numerals :: "uchar \<rightharpoonup> int" where
  "roman_numerals =
     map_of [(of_char CHR ''I'', 1), (of_char CHR ''V'', 5), (of_char CHR ''X'', 10),
             (of_char CHR ''L'', 50), (of_char CHR ''C'', 100), (of_char CHR ''D'', 500),
             (of_char CHR ''M'', 1000)]"

text \<open>The loop of \<open>_roman_to_int\<close> over the characters, with \<open>result\<close> and \<open>prev_value\<close>.\<close>

fun roman_loop :: "ustring \<Rightarrow> int \<Rightarrow> int \<Rightarrow> int" where
  "roman_loop [] result prev_value = result"
| "roman_loop (c # cs) result prev_value =
     (let v = (case roman_numerals c of Some x \<Rightarrow> x | None \<Rightarrow> 0) in
      roman_loop cs (if v < prev_value then result - v else result + v) v)"

definition roman_to_int :: "ustring \<Rightarrow> int" where
  "roman_to_int roman = roman_loop (rev (upper roman)) 0 0"

definition roman_table :: "(int \<times> ustring) list" where
  "roman_table =
     [(1000, ustr ''M''), (900, ustr ''CM''), (500, ustr ''D''), (400, ustr ''CD''),
      (100, ustr ''C''), (90, ustr ''XC''), (50, ustr ''L''), (40, ustr ''XL''),
      (10, ustr ''X''), (9, ustr ''IX''), (5, ustr ''V''), (4, ustr ''IV''),
      (1, ustr ''I'')]"

text \<open>
  The inner \<open>for\<close> loop of \<open>_int_to_roman\<close>: \<open>k\<close> rounds, each appending the symbol and
  subtracting its value.
\<close>

primrec roman_repeat :: "nat \<Rightarrow> int \<Rightarrow> ustring \<Rightarrow> ustring \<times> int \<Rightarrow> ustring \<times> int" where
  "roman_repeat 0 v symb st = st"
| "roman_repeat (Suc k) v symb st =
     roman_repeat k v symb (case st of (roman_num, num) \<Rightarrow> (roman_num @ symb, num - v))"

text \<open>
  The outer \<open>while\<close> loop: the table argument is the part of \<open>val\<close> and \<open>syb\<close> from
  index \<open>i\<close> on; running off its end is the IndexError of \<open>val[i]\<close>.
\<close>

fun roman_while :: "(int \<times> ustring) list \<Rightarrow> ustring \<Rightarrow> int \<Rightarrow> error + ustring" where
  "roman_while tbl roman_num num =
     (if 0 < num then
        (case tbl of
           [] \<Rightarrow> Inl IndexError
         | (v, symb) # tbl' \<Rightarrow>
             (case roman_repeat (nat (num div v)) v symb (roman_num, num) of
                (roman_num', num') \<Rightarrow> roman_while tbl' roman_num' num'))
      else Inr roman_num)"

declare roman_while.simps [simp del]

definition int_to_roman :: "int \<Rightarrow> error + ustring" where
  "int_to_roman num = roman_while roman_table [] num"

section \<open>Detection and reconstruction\<close>

text \<open>The index of a matched item, by its kind.\<close>

definition match_index :: "ListType \<Rightarrow> rx_match \<Rightarrow> error + int" where
  "match_index ltype m =
     (if ltype = NUMBERED then py_int (group1 m)
      else if ltype = LETTERED then
        (case lower (group1 m) of
           [c] \<Rightarrow> Inr (int c - 97 + 1)
         | _ \<Rightarrow> Inl TypeError)
      else if ltype = ROMAN then Inr (roman_to_int (upper (group1 m)))
      else Inr 0)"

text \<open>The loop over \<open>PATTERNS\<close>: the first pattern that matches decides.\<close>

fun try_patterns ::
  "(ListType \<times> (ustring \<Rightarrow> rx_match option)) list \<Rightarrow> ustring \<Rightarrow> int
     \<Rightarrow> (error + ListItemInfo) option" where
  "try_patterns [] text lvl = None"
| "try_patterns ((ltype, pattern) # ps) text lvl =
     (case pattern text of
        None \<Rightarrow> try_patterns ps text lvl
      | Some m \<Rightarrow>
          Some (case match_index ltype m of
                  Inl e \<Rightarrow> Inl e
                | Inr idx \<Rightarrow>
                    Inr \<lparr>item_type = ltype, marker = strip (group0 text m),
                         content = strip (after_match m), level = lvl, index = idx,
                         is_continuation = False\<rparr>))"

text \<open>
  The fallback scan. \<open>BULLET_CHARS\<close> is a Python set, so the order in which the loop
  visits the bullets is not fixed by the source: it is the parameter \<open>order\<close>.
\<close>

fun bullet_scan :: "uchar list \<Rightarrow> ustring \<Rightarrow> int \<Rightarrow> ListItemInfo option" where
  "bullet_scan [] text lvl = None"
| "bullet_scan (bullet # bs) text lvl =
     (if bullet \<in> set (take 10 (lstrip text)) then
        (let bullet_pos = str_find text bullet in
         if 0 \<le> bullet_pos then
           Some \<lparr>item_type = BULLET, marker = take (nat (bullet_pos + 1)) text,
                 content = strip (drop (nat (bullet_pos + 1)) text), level = lvl,
                 index = 0, is_continuation = False\<rparr>
         else bullet_scan bs text lvl)
      else bullet_scan bs text lvl)"

definition detect_list_item ::
  "uchar list \<Rightarrow> ustring \<Rightarrow> real \<Rightarrow> error + ListItemInfo option" where
  "detect_list_item order text x_coord =
     (if text = [] \<or> strip text = [] then Inr None
      else
        (let lvl = (if x_coord \<noteq> 0 then \<lfloor>x_coord / 40\<rfloor> else 0) in
         case try_patterns PATTERNS text lvl of
           Some (Inl e) \<Rightarrow> Inl e
         | Some (Inr item) \<Rightarrow> Inr (Some item)
         | None \<Rightarrow> Inr (bullet_scan order text lvl)))"

definition reconstruct_list_text ::
  "ListItemInfo \<Rightarrow> ustring \<Rightarrow> ustring \<Rightarrow> error + ustring" where
  "reconstruct_list_text list_info translated_content target_lang =
     (let indent = concat (replicate (nat (level list_info)) (ustr ''    '')) in
      if item_type list_info = BULLET then
        Inr (indent @ [0x2022, 0x20] @ translated_content)
      else if item_type list_info = NUMBERED then
        (case py_str (index list_info) of
           Inl e \<Rightarrow> Inl e
         | Inr s \<Rightarrow> Inr (indent @ s @ ustr ''. '' @ translated_content))
      else if item_type list_info = LETTERED then
        (let cp = 97 + index list_info - 1 in
         if 0 \<le> cp \<and> cp < 0x110000
         then Inr (indent @ [nat cp] @ ustr ''. '' @ translated_content)
         else Inl ValueError)
      else if item_type list_info = ROMAN then
        (case int_to_roman (index list_info) of
           Inl e \<Rightarrow> Inl e
         | Inr roman \<Rightarrow> Inr (indent @ roman @ ustr ''. '' @ translated_content))
      else Inr (indent @ translated_content))"

section \<open>Auxiliary notions for the Roman round trip\<close>

text \<open>
  One round of the loop of \<open>_roman_to_int\<close> as a step on the pair of \<open>result\<close> and
  \<open>prev_value\<close>, and the invariant of \<open>_int_to_roman\<close> for a tail of the symbol table:
  from any number below \<open>B\<close> the loop appends a string of upper-case symbols whose
  value, read by \<open>_roman_to_int\<close>, is that number, and whose first symbol is worth at
  most \<open>F\<close>.
\<close>

definition roman_step :: "int \<times> int \<Rightarrow> uchar \<Rightarrow> int \<times> int" where
  "roman_step st c =
     (case st of (result, prev_value) \<Rightarrow>
        (let v = (case roman_numerals c of Some x \<Rightarrow> x | None \<Rightarrow> 0) in
         (if v < prev_value then result - v else result + v, v)))"

definition roman_inv :: "(int \<times> ustring) list \<Rightarrow> int \<Rightarrow> int \<Rightarrow> bool" where
  "roman_inv tbl B F =
     (\<forall>num acc. 0 \<le> num \<and> num < B \<longrightarrow>
        (\<exists>s p. roman_while tbl acc num = Inr (acc @ s) \<and> upper s = s
           \<and> foldl roman_step (0, 0) (rev s) = (num, p) \<and> 0 \<le> p \<and> p \<le> F))"

section \<open>Evaluation on concrete inputs\<close>

lemmas rx_defs =
  rx_class_def rx_eps_def rx_seq_def rx_alt_def rx_opt_def rx_plus_def rx_lookahead_def
  rx_ch_def rx_matches_def re_match_def group0_def group1_def after_match_def

lemmas chr_defs =
  is_space_def whitespace_chars_def is_decimal_def decimal_value_def decimal_blocks_def
  is_ascii_letter_def is_bullet_class_def is_dot_or_paren_def is_roman_letter_def ustr_def

lemmas det_defs =
  detect_list_item_def PATTERNS_def bullet_pattern_def numbered_pattern_def
  lettered_pattern_def roman_pattern_def rx_roman_numeral_def match_index_def py_int_def
  max_str_digits_def strip_def lstrip_def bullet_chars_def lower_def upper_def
  to_lower_def to_upper_def

text \<open>The anchored patterns never reach the fallback scan, whatever its order.\<close>

lemma detect_numbered_2_Example:
  "detect_list_item order (ustr ''2. Example'') 0 =
     Inr (Some \<lparr>item_type = NUMBERED, marker = ustr ''2.'', content = ustr ''Example'',
                level = 0, index = 2, is_continuation = False\<rparr>)"
  by (simp add: rx_defs chr_defs det_defs)

lemma rx_upto_numerals:
  "rx_upto 4 r = rx_alt (rx_seq r (rx_upto 3 r)) rx_eps"
  "rx_upto 3 r = rx_alt (rx_seq r (rx_upto 2 r)) rx_eps"
  "rx_upto 2 r = rx_alt (rx_seq r (rx_upto 1 r)) rx_eps"
  "rx_upto 1 r = rx_alt (rx_seq r rx_eps) rx_eps"
  by (simp_all add: eval_nat_numeral)

lemma detect_upper_roman_IV:
  "detect_list_item order (ustr ''IV. Fourth clause'') 0 =
     Inr (Some \<lparr>item_type = ROMAN, marker = ustr ''IV.'', content = ustr ''Fourth clause'',
                level = 0, index = 4, is_continuation = False\<rparr>)"
  by (simp add: rx_defs chr_defs det_defs roman_to_int_def roman_numerals_def
      rx_upto_numerals)

section \<open>General facts about the detector\<close>

lemma try_patterns_level:
  "try_patterns ps text lvl = Some (Inr item) \<Longrightarrow> level item = lvl"
proof (induction ps)
  case Nil
  then show ?case by simp
next
  case (Cons p ps)
  obtain ltype pattern where p: "p = (ltype, pattern)" by (cases p)
  show ?case
  proof (cases "pattern text")
    case None
    with Cons p show ?thesis by simp
  next
    case (Some m)
    with Cons.prems p show ?thesis
      by (cases "match_index ltype m") auto
  qed
qed

lemma bullet_scan_level:
  "bullet_scan bs text lvl = Some item \<Longrightarrow> level item = lvl"
  by (induction bs) (auto simp: Let_def split: if_splits)

lemma detect_level:
  assumes "detect_list_item order text x_coord = Inr (Some item)"
  shows "level item = \<lfloor>x_coord / 40\<rfloor>"
proof -
  define lvl where "lvl = (if x_coord \<noteq> 0 then \<lfloor>x_coord / 40\<rfloor> else 0)"
  have lvl: "lvl = \<lfloor>x_coord / 40\<rfloor>"
    by (simp add: lvl_def)
  from assms have "try_patterns PATTERNS text lvl = Some (Inr item)
      \<or> bullet_scan order text lvl = Some item"
    unfolding detect_list_item_def lvl_def [symmetric] Let_def
    by (auto split: if_splits option.splits sum.splits)
  then have "level item = lvl"
    using try_patterns_level bullet_scan_level by blast
  with lvl show ?thesis by simp
qed

section \<open>Roman numerals: the round trip\<close>

lemma roman_loop_foldl:
  "roman_loop cs r p = fst (foldl roman_step (r, p) cs)"
  by (induction cs arbitrary: r p) (simp_all add: roman_step_def Let_def)

lemma roman_repeat_eq:
  "roman_repeat k v symb (acc, num) = (acc @ concat (replicate k symb), num - int k * v)"
  by (induction k arbitrary: acc num) (simp_all add: algebra_simps)

lemma upper_concat_replicate:
  "upper symb = symb
     \<Longrightarrow> upper (concat (replicate k symb)) = concat (replicate k symb)"
  by (induction k) (simp_all add: upper_def)

lemma roman_state_replicate:
  assumes st: "\<And>r p. 0 \<le> p \<Longrightarrow> p \<le> F
      \<Longrightarrow> foldl roman_step (r, p) (rev symb) = (r + v, f)"
    and f: "0 \<le> f" "f \<le> F"
  shows "0 \<le> p \<Longrightarrow> p \<le> F \<Longrightarrow>
     foldl roman_step (r, p) (rev (concat (replicate k symb)))
       = (r + int k * v, if k = 0 then p else f)"
proof (induction k)
  case 0
  then show ?case by simp
next
  case (Suc k)
  have "foldl roman_step (r, p) (rev (concat (replicate (Suc k) symb)))
      = foldl roman_step (foldl roman_step (r, p) (rev (concat (replicate k symb)))) (rev symb)"
    by simp
  also have "\<dots> = foldl roman_step (r + int k * v, if k = 0 then p else f) (rev symb)"
    using Suc by simp
  also have "\<dots> = (r + int k * v + v, f)"
    using st [of "if k = 0 then p else f" "r + int k * v"] Suc.prems f by simp
  finally show ?case by (simp add: algebra_simps)
qed

lemma roman_inv_step:
  assumes tl: "roman_inv tbl v F"
    and v: "0 < v" and F: "F \<le> F'"
    and up: "upper symb = symb"
    and st: "\<And>r p. 0 \<le> p \<Longrightarrow> p \<le> F'
      \<Longrightarrow> foldl roman_step (r, p) (rev symb) = (r + v, f)"
    and f: "0 \<le> f" "f \<le> F'"
  shows "roman_inv ((v, symb) # tbl) B F'"
  unfolding roman_inv_def
proof (intro allI impI)
  fix num acc
  assume "0 \<le> num \<and> num < B"
  then have num: "0 \<le> num" by simp
  show "\<exists>s p. roman_while ((v, symb) # tbl) acc num = Inr (acc @ s) \<and> upper s = s
           \<and> foldl roman_step (0, 0) (rev s) = (num, p) \<and> 0 \<le> p \<and> p \<le> F'"
  proof (cases "num = 0")
    case True
    have "roman_while ((v, symb) # tbl) acc num = Inr (acc @ [])"
      using True by (simp add: roman_while.simps)
    moreover have "upper [] = []" by (simp add: upper_def)
    moreover have "foldl roman_step (0, 0) (rev []) = (num, 0)" using True by simp
    moreover have "(0::int) \<le> F'" using f by simp
    ultimately show ?thesis by blast
  next
    case False
    with num have pos: "0 < num" by simp
    define k where "k = nat (num div v)"
    define rep where "rep = concat (replicate k symb)"
    have k: "int k = num div v"
      using num v by (simp add: k_def pos_imp_zdiv_nonneg_iff)
    have rem: "num - int k * v = num mod v"
      by (simp add: k minus_div_mult_eq_mod)
    have rem_bounds: "0 \<le> num mod v" "num mod v < v"
      using v by simp_all
    from tl rem_bounds obtain s' p' where
      s': "roman_while tbl (acc @ rep) (num mod v) = Inr ((acc @ rep) @ s')"
      and up': "upper s' = s'"
      and st': "foldl roman_step (0, 0) (rev s') = (num mod v, p')"
      and p': "0 \<le> p'" "p' \<le> F"
      unfolding roman_inv_def by blast
    have rr: "roman_repeat (nat (num div v)) v symb (acc, num) = (acc @ rep, num mod v)"
      using rem by (simp add: roman_repeat_eq k_def [symmetric] rep_def)
    have w: "roman_while ((v, symb) # tbl) acc num = Inr (acc @ (rep @ s'))"
      using pos s' by (simp add: roman_while.simps [of "(v, symb) # tbl"] rr)
    have u: "upper (rep @ s') = rep @ s'"
      using upper_concat_replicate [OF up, of k] up'
      by (simp add: rep_def upper_def)
    have p'F: "p' \<le> F'" using p' F by simp
    have "foldl roman_step (0, 0) (rev (rep @ s'))
        = foldl roman_step (num mod v, p') (rev rep)"
      using st' by simp
    also have "\<dots> = (num mod v + int k * v, if k = 0 then p' else f)"
      unfolding rep_def
      by (rule roman_state_replicate [OF st f p'(1) p'F])
    also have "num mod v + int k * v = num"
      by (simp add: k)
    finally have e: "foldl roman_step (0, 0) (rev (rep @ s'))
        = (num, if k = 0 then p' else f)" .
    have b: "0 \<le> (if k = 0 then p' else f)" "(if k = 0 then p' else f) \<le> F'"
      using p' p'F f by simp_all
    from w u e b show ?thesis by blast
  qed
qed

lemma roman_inv_Nil: "roman_inv [] 1 0"
  unfolding roman_inv_def
proof (intro allI impI)
  fix num :: int and acc :: ustring
  assume "0 \<le> num \<and> num < 1"
  then have "num = 0" by simp
  then have "roman_while [] acc num = Inr (acc @ []) \<and> upper [] = []
      \<and> foldl roman_step (0, 0) (rev []) = (num, 0)
      \<and> (0::int) \<le> 0 \<and> (0::int) \<le> 0"
    by (simp add: roman_while.simps upper_def)
  then show "\<exists>s p. roman_while [] acc num = Inr (acc @ s) \<and> upper s = s
      \<and> foldl roman_step (0, 0) (rev s) = (num, p) \<and> 0 \<le> p \<and> p \<le> 0"
    by blast
qed

lemmas roman_sym_defs = ustr_def upper_def to_upper_def roman_step_def roman_numerals_def

lemma roman_inv_table: "roman_inv roman_table 4000 1000"
proof -
  note i13 = roman_inv_Nil
  have i12: "roman_inv
      [(1, ustr ''I'')]
      4 1"
    by (rule roman_inv_step [OF i13, where f = 1]) (simp_all add: roman_sym_defs)
  have i11: "roman_inv
      [(4, ustr ''IV''), (1, ustr ''I'')]
      5 1"
    by (rule roman_inv_step [OF i12, where f = 1]) (simp_all add: roman_sym_defs)
  have i10: "roman_inv
      [(5, ustr ''V''), (4, ustr ''IV''), (1, ustr ''I'')]
      9 5"
    by (rule roman_inv_step [OF i11, where f = 5]) (simp_all add: roman_sym_defs)
  have i9: "roman_inv
      [(9, ustr ''IX''), (5, ustr ''V''), (4, ustr ''IV''), (1, ustr ''I'')]
      10 5"
    by (rule roman_inv_step [OF i10, where f = 1]) (simp_all add: roman_sym_defs)
  have i8: "roman_inv
      [(10, ustr ''X''), (9, ustr ''IX''), (5, ustr ''V''), (4, ustr ''IV''),
       (1, ustr ''I'')]
      40 10"
    by (rule roman_inv_step [OF i9, where f = 10]) (simp_all add: roman_sym_defs)
  have i7: "roman_inv
      [(40, ustr ''XL''), (10, ustr ''X''), (9, ustr ''IX''), (5, ustr ''V''),
       (4, ustr ''IV''), (1, ustr ''I'')]
      50 10"
    by (rule roman_inv_step [OF i8, where f = 10]) (simp_all add: roman_sym_defs)
  have i6: "roman_inv
      [(50, ustr ''L''), (40, ustr ''XL''), (10, ustr ''X''), (9, ustr ''IX''),
       (5, ustr ''V''), (4, ustr ''IV''), (1, ustr ''I'')]
      90 50"
    by (rule roman_inv_step [OF i7, where f = 50]) (simp_all add: roman_sym_defs)
  have i5: "roman_inv
      [(90, ustr ''XC''), (50, ustr ''L''), (40, ustr ''XL''), (10, ustr ''X''),
       (9, ustr ''IX''), (5, ustr ''V''), (4, ustr ''IV''), (1, ustr ''I'')]
      100 50"
    by (rule roman_inv_step [OF i6, where f = 10]) (simp_all add: roman_sym_defs)
  have i4: "roman_inv
      [(100, ustr ''C''), (90, ustr ''XC''), (50, ustr ''L''), (40, ustr ''XL''),
       (10, ustr ''X''), (9, ustr ''IX''), (5, ustr ''V''), (4, ustr ''IV''),
       (1, ustr ''I'')]
      400 100"
    by (rule roman_inv_step [OF i5, where f = 100]) (simp_all add: roman_sym_defs)
  have i3: "roman_inv
      [(400, ustr ''CD''), (100, ustr ''C''), (90, ustr ''XC''), (50, ustr ''L''),
       (40, ustr ''XL''), (10, ustr ''X''), (9, ustr ''IX''), (5, ustr ''V''),
       (4, ustr ''IV''), (1, ustr ''I'')]
      500 100"
    by (rule roman_inv_step [OF i4, where f = 100]) (simp_all add: roman_sym_defs)
  have i2: "roman_inv
      [(500, ustr ''D''), (400, ustr ''CD''), (100, ustr ''C''), (90, ustr ''XC''),
       (50, ustr ''L''), (40, ustr ''XL''), (10, ustr ''X''), (9, ustr ''IX''),
       (5, ustr ''V''), (4, ustr ''IV''), (1, ustr ''I'')]
      900 500"
    by (rule roman_inv_step [OF i3, where f = 500]) (simp_all add: roman_sym_defs)
  have i1: "roman_inv
      [(900, ustr ''CM''), (500, ustr ''D''), (400, ustr ''CD''), (100, ustr ''C''),
       (90, ustr ''XC''), (50, ustr ''L''), (40, ustr ''XL''), (10, ustr ''X''),
       (9, ustr ''IX''), (5, ustr ''V''), (4, ustr ''IV''), (1, ustr ''I'')]
      1000 500"
    by (rule roman_inv_step [OF i2, where f = 100]) (simp_all add: roman_sym_defs)
  have i0: "roman_inv
      [(1000, ustr ''M''), (900, ustr ''CM''), (500, ustr ''D''), (400, ustr ''CD''),
       (100, ustr ''C''), (90, ustr ''XC''), (50, ustr ''L''), (40, ustr ''XL''),
       (10, ustr ''X''), (9, ustr ''IX''), (5, ustr ''V''), (4, ustr ''IV''),
       (1, ustr ''I'')]
      4000 1000"
    by (rule roman_inv_step [OF i1, where f = 1000]) (simp_all add: roman_sym_defs)
  from i0 show ?thesis
    by (simp add: roman_table_def)
qed

lemma int_to_roman_round_trip:
  assumes "0 \<le> n" "n < 4000"
  shows "map_sum id roman_to_int (int_to_roman n) = Inr n"
proof -
  from roman_inv_table assms obtain s p where
    w: "roman_while roman_table [] n = Inr ([] @ s)" and u: "upper s = s"
    and st: "foldl roman_step (0, 0) (rev s) = (n, p)"
    unfolding roman_inv_def by blast
  have "roman_to_int s = n"
    by (simp add: roman_to_int_def u roman_loop_foldl st)
  with w show ?thesis
    by (simp add: int_to_roman_def)
qed

section \<open>Texts without a list item\<close>

lemma strip_empty_iff: "strip s = [] \<longleftrightarrow> (\<forall>c\<in>set s. is_space c)"
proof
  assume "strip s = []"
  then have "\<forall>x\<in>set (dropWhile is_space s). is_space x"
    by (simp add: strip_def dropWhile_eq_Nil_conv)
  then have "dropWhile is_space s = []"
    using hd_dropWhile [of is_space s] hd_in_set [of "dropWhile is_space s"] by blast
  then show "\<forall>c\<in>set s. is_space c"
    by (simp add: dropWhile_eq_Nil_conv)
next
  assume "\<forall>c\<in>set s. is_space c"
  then show "strip s = []"
    by (auto simp: strip_def dest: set_dropWhileD)
qed

lemma bullet_scan_None:
  "\<forall>b\<in>set bs. b \<notin> set (take 10 (lstrip text)) \<Longrightarrow> bullet_scan bs text lvl = None"
  by (induction bs) simp_all

lemma try_patterns_None:
  "bullet_pattern text = None \<Longrightarrow> numbered_pattern text = None
     \<Longrightarrow> lettered_pattern text = None \<Longrightarrow> roman_pattern text = None
     \<Longrightarrow> try_patterns PATTERNS text lvl = None"
  by (simp add: PATTERNS_def)

lemma detect_blank: "text = [] \<or> (\<forall>c\<in>set text. is_space c)
    \<Longrightarrow> detect_list_item order text x_coord = Inr None"
  using strip_empty_iff [of "text"] by (auto simp: detect_list_item_def)

lemma detect_plain:
  assumes "bullet_pattern text = None" "numbered_pattern text = None"
    "lettered_pattern text = None" "roman_pattern text = None"
    "set order = BULLET_CHARS" "\<forall>c\<in>set (take 10 (lstrip text)). c \<notin> BULLET_CHARS"
  shows "detect_list_item order text x_coord = Inr None"
proof -
  have "\<forall>b\<in>set order. b \<notin> set (take 10 (lstrip text))"
    using assms(5,6) by blast
  then have "bullet_scan order text lvl = None" for lvl
    by (rule bullet_scan_None)
  moreover have "try_patterns PATTERNS text lvl = None" for lvl
    using assms(1-4) by (rule try_patterns_None)
  ultimately show ?thesis
    by (simp add: detect_list_item_def Let_def)
qed

section \<open>Markers of the anchored patterns\<close>

text \<open>
  An item built from a match of an anchored pattern carries the stripped
  \<open>match.group(0)\<close> as its marker, and stripping is idempotent.
\<close>

lemma strip_idem: "strip (strip s) = strip s"
proof -
  define t where "t = dropWhile is_space s"
  define u where "u = rev (dropWhile is_space (rev t))"
  have su: "strip s = u"
    by (simp add: strip_def t_def u_def)
  have "u @ rev (takeWhile is_space (rev t))
      = rev (takeWhile is_space (rev t) @ dropWhile is_space (rev t))"
    unfolding u_def by (simp only: rev_append)
  also have "\<dots> = t"
    by (simp only: takeWhile_dropWhile_id rev_rev_ident)
  finally have "\<exists>w. t = u @ w"
    by metis
  then obtain w where pre: "t = u @ w"
    by blast
  have "dropWhile is_space u = u"
  proof (cases u)
    case Nil
    then show ?thesis by simp
  next
    case (Cons x xs)
    with pre have "t \<noteq> []" "hd t = x" by auto
    then have "\<not> is_space x"
      using hd_dropWhile [of is_space s] by (simp add: t_def)
    with Cons show ?thesis by simp
  qed
  moreover have "dropWhile is_space (rev u) = rev u"
    by (simp add: u_def dropWhile_idem)
  ultimately have "strip u = u"
    by (simp add: strip_def)
  with su show ?thesis by simp
qed

lemma anchored_marker_trimmed:
  "try_patterns ps s lvl = Some (Inr item) \<Longrightarrow> strip (marker item) = marker item"
proof (induction ps)
  case Nil
  then show ?case by simp
next
  case (Cons p ps)
  obtain ltype pattern where p: "p = (ltype, pattern)" by (cases p)
  show ?case
  proof (cases "pattern s")
    case None
    with Cons p show ?thesis by simp
  next
    case (Some m)
    with Cons.prems p show ?thesis
      by (cases "match_index ltype m") (auto simp: strip_idem)
  qed
qed

section \<open>Where the detector can raise\<close>

text \<open>
  What a successful match of the patterns says about the text, read off the list of
  matches; in particular group 1 of the numbered pattern is the run of decimal digits
  that follows the leading white space, and \<open>int\<close> of it is the only call of the
  detector that can raise.
\<close>

lemma rx_star_lazy_mem:
  "a \<in> set (rx_star_lazy P s) \<Longrightarrow> \<exists>p. s = p @ a \<and> (\<forall>x\<in>set p. P x)"
proof (induction s)
  case Nil
  then show ?case by simp
next
  case (Cons c cs)
  show ?case
  proof (cases "a = c # cs")
    case True
    then show ?thesis by simp
  next
    case False
    with Cons.prems have c: "P c" and "a \<in> set (rx_star_lazy P cs)"
      by (auto split: if_splits)
    with Cons.IH obtain p where "cs = p @ a" "\<forall>x\<in>set p. P x" by blast
    with c have "c # cs = (c # p) @ a \<and> (\<forall>x\<in>set (c # p). P x)" by simp
    then show ?thesis by blast
  qed
qed

lemma rx_star_mem:
  "b \<in> set (rx_star P s) \<Longrightarrow> \<exists>p. s = p @ b \<and> (\<forall>x\<in>set p. P x)"
proof (induction s)
  case Nil
  then show ?case by simp
next
  case (Cons c cs)
  show ?case
  proof (cases "b = c # cs")
    case True
    then show ?thesis by simp
  next
    case False
    with Cons.prems have c: "P c" and "b \<in> set (rx_star P cs)"
      by (auto split: if_splits)
    with Cons.IH obtain p where "cs = p @ b" "\<forall>x\<in>set p. P x" by blast
    with c have "c # cs = (c # p) @ b \<and> (\<forall>x\<in>set (c # p). P x)" by simp
    then show ?thesis by blast
  qed
qed

lemma rx_class_mem: "c \<in> set (rx_class P s) \<longleftrightarrow> (\<exists>x. s = x # c \<and> P x)"
  by (cases s) (auto simp: rx_class_def)

lemma rx_plus_mem:
  assumes "b \<in> set (rx_plus P s)"
  shows "\<exists>p. s = p @ b \<and> p \<noteq> [] \<and> (\<forall>x\<in>set p. P x)"
proof -
  from assms obtain s' where s': "s' \<in> set (rx_class P s)" and b: "b \<in> set (rx_star P s')"
    by (auto simp: rx_plus_def rx_seq_def)
  from s' obtain x where x: "s = x # s'" "P x"
    by (auto simp: rx_class_mem)
  from b obtain p where p: "s' = p @ b" "\<forall>x\<in>set p. P x"
    using rx_star_mem by blast
  from x p have "s = (x # p) @ b \<and> x # p \<noteq> [] \<and> (\<forall>y\<in>set (x # p). P y)" by simp
  then show ?thesis by blast
qed

lemma re_match_SomeD:
  assumes "re_match pre grp post s = Some (a, b, c)"
  shows "a \<in> set (pre s) \<and> b \<in> set (grp a) \<and> c \<in> set (post b)"
proof -
  from assms have "(a, b, c) \<in> set (rx_matches pre grp post s)"
    by (auto simp: re_match_def split: list.splits)
  then show ?thesis
    by (auto simp: rx_matches_def)
qed

lemma whitespace_not_decimal: "\<forall>c\<in>set whitespace_chars. \<not> is_decimal c"
  by (simp add: whitespace_chars_def is_decimal_def decimal_value_def decimal_blocks_def)

lemma decimal_not_space: "is_space c \<Longrightarrow> \<not> is_decimal c"
  using whitespace_not_decimal by (simp add: is_space_def)

lemma dot_or_paren_not_decimal: "is_dot_or_paren c \<Longrightarrow> \<not> is_decimal c"
proof -
  have "\<not> is_decimal 0x2E" "\<not> is_decimal 0x29"
    by (simp_all add: is_decimal_def decimal_value_def decimal_blocks_def)
  then show "is_dot_or_paren c \<Longrightarrow> \<not> is_decimal c"
    by (auto simp: is_dot_or_paren_def)
qed


lemma numbered_group1:
  assumes "numbered_pattern s = Some m"
  shows "group1 m = takeWhile is_decimal (lstrip s) \<and> group1 m \<noteq> []
    \<and> list_all is_decimal (group1 m)"
proof -
  obtain a b c where m: "m = (a, b, c)" by (cases m)
  from assms m have mem: "a \<in> set (rx_star_lazy is_space s)"
    "b \<in> set (rx_plus is_decimal a)"
    "c \<in> set (rx_seq (rx_class is_dot_or_paren) (rx_plus is_space) b)"
    using re_match_SomeD [of "rx_star_lazy is_space" "rx_plus is_decimal"
        "rx_seq (rx_class is_dot_or_paren) (rx_plus is_space)" s a b c]
    by (simp_all add: numbered_pattern_def)
  from mem(1) obtain ws where ws: "s = ws @ a" "\<forall>x\<in>set ws. is_space x"
    using rx_star_lazy_mem by blast
  from mem(2) obtain g where g: "a = g @ b" "g \<noteq> []" "\<forall>x\<in>set g. is_decimal x"
    using rx_plus_mem by blast
  from mem(3) obtain b' where "b' \<in> set (rx_class is_dot_or_paren b)"
    by (auto simp: rx_seq_def)
  then obtain x where x: "b = x # b'" "is_dot_or_paren x"
    by (auto simp: rx_class_mem)
  have g1: "group1 m = g"
    by (simp add: m group1_def g(1))
  have "\<not> is_decimal x"
    using x(2) by (rule dot_or_paren_not_decimal)
  then have tw: "takeWhile is_decimal a = g"
    using g(3) by (simp add: g(1) x(1))
  obtain d g' where dg: "g = d # g'"
    using g(2) by (cases g) auto
  with g(3) have "is_decimal d" by simp
  then have "\<not> is_space d"
    using decimal_not_space by blast
  then have "dropWhile is_space a = a"
    by (simp add: g(1) dg)
  then have "lstrip s = a"
    using ws by (simp add: lstrip_def)
  with tw g1 g show ?thesis
    by (simp add: list_all_iff)
qed

lemma lettered_group1:
  assumes "lettered_pattern s = Some m"
  shows "\<exists>x. group1 m = [x]"
proof -
  obtain a b c where m: "m = (a, b, c)" by (cases m)
  from assms m have "b \<in> set (rx_class is_ascii_letter a)"
    using re_match_SomeD [of "rx_star_lazy is_space" "rx_class is_ascii_letter"
        "rx_seq (rx_class is_dot_or_paren) (rx_plus is_space)" s a b c]
    by (simp add: lettered_pattern_def)
  then obtain x where "a = x # b"
    by (auto simp: rx_class_mem)
  then have "group1 m = [x]"
    by (simp add: m group1_def)
  then show ?thesis by blast
qed

lemma match_index_numbered:
  assumes "numbered_pattern s = Some m"
    and "length (takeWhile is_decimal (lstrip s)) \<le> 4300"
  shows "match_index NUMBERED m = Inr (int (digits_value (group1 m) 0))"
proof -
  from numbered_group1 [OF assms(1)]
  have g: "group1 m = takeWhile is_decimal (lstrip s)" "group1 m \<noteq> []"
    "list_all is_decimal (group1 m)"
    by blast+
  from g(1) assms(2) have "length (group1 m) \<le> 4300" by simp
  with g(2,3) have "py_int (group1 m) = Inr (int (digits_value (group1 m) 0))"
    by (simp add: py_int_def max_str_digits_def)
  then show ?thesis
    by (simp add: match_index_def)
qed

lemma match_index_numbered_long:
  assumes "numbered_pattern s = Some m"
    and "4300 < length (takeWhile is_decimal (lstrip s))"
  shows "match_index NUMBERED m = Inl ValueError"
proof -
  from numbered_group1 [OF assms(1)]
  have g: "group1 m = takeWhile is_decimal (lstrip s)"
    by blast
  from g assms(2) have "4300 < length (group1 m)" by simp
  then have "py_int (group1 m) = Inl ValueError"
    by (simp add: py_int_def max_str_digits_def)
  then show ?thesis
    by (simp add: match_index_def)
qed

lemma match_index_lettered:
  assumes "lettered_pattern s = Some m"
  shows "\<exists>i. match_index LETTERED m = Inr i"
  using lettered_group1 [OF assms]
  by (auto simp: match_index_def lower_def)

lemma try_patterns_no_error:
  assumes "length (takeWhile is_decimal (lstrip s)) \<le> 4300"
  shows "try_patterns PATTERNS s lvl \<noteq> Some (Inl e)"
proof (cases "bullet_pattern s")
  case (Some m)
  then show ?thesis
    by (simp add: PATTERNS_def match_index_def)
next
  case None
  note b = None
  show ?thesis
  proof (cases "numbered_pattern s")
    case (Some m)
    with b match_index_numbered [OF Some assms] show ?thesis
      by (simp add: PATTERNS_def)
  next
    case None
    note n = None
    show ?thesis
    proof (cases "lettered_pattern s")
      case (Some m)
      with b n match_index_lettered [OF Some] show ?thesis
        by (auto simp: PATTERNS_def)
    next
      case None
      with b n show ?thesis
        by (cases "roman_pattern s") (simp_all add: PATTERNS_def match_index_def)
    qed
  qed
qed

lemma detect_no_error:
  assumes "length (takeWhile is_decimal (lstrip s)) \<le> 4300"
  shows "\<exists>r. detect_list_item order s x_coord = Inr r"
proof -
  have "try_patterns PATTERNS s lvl \<noteq> Some (Inl e)" for lvl e
    using assms by (rule try_patterns_no_error)
  then show ?thesis
    unfolding detect_list_item_def Let_def
    by (auto split: option.splits sum.splits)
qed


lemma rx_star_replicate:
  "P d \<Longrightarrow> \<not> P x \<Longrightarrow> \<exists>t. rx_star P (replicate n d @ x # r) = (x # r) # t"
  by (induction n) auto

lemma bullet_pattern_None:
  "\<not> is_space c \<Longrightarrow> \<not> is_bullet_class c \<Longrightarrow> bullet_pattern (c # cs) = None"
  by (simp add: bullet_pattern_def re_match_def rx_matches_def rx_class_def)

lemma numbered_pattern_digit_run:
  assumes d: "is_decimal d" "\<not> is_space d"
  shows "\<exists>m. numbered_pattern (replicate (Suc n) d @ ustr ''. x'') = Some m"
proof -
  have x: "\<not> is_decimal 0x2E"
    by (simp add: is_decimal_def decimal_value_def decimal_blocks_def)
  obtain t where t: "rx_star is_decimal (replicate n d @ 0x2E # [0x20, 0x78])
      = (0x2E # [0x20, 0x78]) # t"
    using rx_star_replicate [OF d(1) x] by blast
  have post: "rx_seq (rx_class is_dot_or_paren) (rx_plus is_space) (0x2E # [0x20, 0x78])
      = [0x78] # []"
    by (simp add: rx_defs chr_defs)
  have u: "ustr ''. x'' = 0x2E # [0x20, 0x78]"
    by (simp add: ustr_def)
  have "rx_matches (rx_star_lazy is_space) (rx_plus is_decimal)
      (rx_seq (rx_class is_dot_or_paren) (rx_plus is_space))
      (replicate (Suc n) d @ ustr ''. x'') \<noteq> []"
    unfolding u using d t post
    by (simp add: rx_matches_def rx_plus_def rx_seq_def rx_class_def)
  then show ?thesis
    by (simp add: numbered_pattern_def re_match_def split: list.splits)
qed

lemma long_digit_run:
  "detect_list_item order (replicate 4301 0x31 @ ustr ''. x'') x_coord = Inl ValueError"
proof -
  define s where "s = replicate 4301 (0x31::nat) @ ustr ''. x''"
  have d: "is_decimal 0x31" "\<not> is_space 0x31" "\<not> is_bullet_class 0x31"
    "\<not> is_decimal 0x2E"
    by (simp_all add: chr_defs)
  have n: "(4301::nat) = Suc 4300" by simp
  have rep: "replicate 4301 (0x31::nat) = 0x31 # replicate 4300 0x31"
    unfolding n by (rule replicate_Suc)
  have hd: "s = 0x31 # (replicate 4300 0x31 @ ustr ''. x'')"
    unfolding s_def rep by simp
  have b: "bullet_pattern s = None"
    unfolding hd using d(2,3) by (rule bullet_pattern_None)
  obtain m where m: "numbered_pattern s = Some m"
    unfolding s_def n using numbered_pattern_digit_run [OF d(1,2)] by blast
  have "lstrip s = s"
    using d(2) by (simp add: hd lstrip_def)
  moreover have "takeWhile is_decimal s = replicate 4301 0x31"
  proof -
    have "takeWhile is_decimal (replicate 4301 0x31 @ ustr ''. x'')
        = replicate 4301 0x31 @ takeWhile is_decimal (ustr ''. x'')"
      using d(1) by (intro takeWhile_append2) simp
    also have "takeWhile is_decimal (ustr ''. x'') = []"
      using d(4) by (simp add: ustr_def)
    finally show ?thesis
      by (simp add: s_def)
  qed
  ultimately have "4300 < length (takeWhile is_decimal (lstrip s))"
    by simp
  with m have "match_index NUMBERED m = Inl ValueError"
    by (rule match_index_numbered_long)
  with b m have t: "try_patterns PATTERNS s lvl = Some (Inl ValueError)" for lvl
    by (simp add: PATTERNS_def)
  have "0x31 \<in> set s"
    by (simp add: hd)
  with d(2) have "strip s \<noteq> []"
    using strip_empty_iff [of s] by blast
  moreover have "s \<noteq> []"
    by (simp add: hd)
  ultimately have "detect_list_item order s x_coord = Inl ValueError"
    using t by (simp add: detect_list_item_def Let_def)
  then show ?thesis
    by (simp add: s_def)
qed

section \<open>Claims\<close>

text \<open>
  C1. Detect/reconstruct round trip: \<open>detect("2. Example", 0)\<close> returns an item, and
  \<open>reconstruct\<close> of that item with the translated content "Example translated" and the
  default target language "en" returns exactly "2. Example translated".
\<close>

theorem C1_detect_reconstruct_round_trip:
  "detect_list_item order (ustr ''2. Example'') 0 =
     Inr (Some \<lparr>item_type = NUMBERED, marker = ustr ''2.'', content = ustr ''Example'',
                level = 0, index = 2, is_continuation = False\<rparr>)
   \<and> reconstruct_list_text
       \<lparr>item_type = NUMBERED, marker = ustr ''2.'', content = ustr ''Example'',
        level = 0, index = 2, is_continuation = False\<rparr>
       (ustr ''Example translated'') (ustr ''en'') =
     Inr (ustr ''2. Example translated'')"
proof
  show "detect_list_item order (ustr ''2. Example'') 0 =
     Inr (Some \<lparr>item_type = NUMBERED, marker = ustr ''2.'', content = ustr ''Example'',
                level = 0, index = 2, is_continuation = False\<rparr>)"
    by (rule detect_numbered_2_Example)
  show "reconstruct_list_text
       \<lparr>item_type = NUMBERED, marker = ustr ''2.'', content = ustr ''Example'',
        level = 0, index = 2, is_continuation = False\<rparr>
       (ustr ''Example translated'') (ustr ''en'') =
     Inr (ustr ''2. Example translated'')"
    by (simp add: reconstruct_list_text_def py_str_def nat_digits.simps max_str_digits_def
        ustr_def)
qed

text \<open>
  C2. Roman-numeral round trip: for every integer \<open>n\<close> with \<open>1 \<le> n \<le> 3999\<close>,
  \<open>_int_to_roman(n)\<close> returns a numeral and \<open>_roman_to_int\<close> of that numeral is \<open>n\<close>.
\<close>

theorem C2_roman_round_trip:
  "1 \<le> n \<Longrightarrow> n \<le> 3999 \<Longrightarrow> map_sum id roman_to_int (int_to_roman n) = Inr n"
  by (rule int_to_roman_round_trip) simp_all

theorem C2_roman_round_trip_witness:
  "(1::int) \<le> 1994 \<and> (1994::int) \<le> 3999
   \<and> map_sum id roman_to_int (int_to_roman 1994) = Inr 1994"
proof -
  have h1: "(1::int) \<le> 1994" and h2: "(1994::int) \<le> 3999" by simp_all
  show ?thesis
    using h1 h2 C2_roman_round_trip [OF h1 h2] by blast
qed

text \<open>
  C3, at its own example: the lower-case numeral "iv." is matched by none of the
  patterns (the Roman pattern lists upper-case letters only and is compiled without
  IGNORECASE), so \<open>detect("iv. Fourth clause")\<close> returns no item, where the claim has
  kind ROMAN and index 4. The upper-case "IV." is detected
  (\<open>detect_upper_roman_IV\<close>), and the code upper-cases the matched numeral before
  converting it.
\<close>

theorem C3_lowercase_roman_not_detected:
  "detect_list_item bullet_chars (ustr ''iv. Fourth clause'') 0 = Inr None"
  by (simp add: rx_defs chr_defs det_defs)

text \<open>
  C4. detect returns no item for every empty or white-space-only string, and for every
  non-empty string that none of the four anchored patterns matches and whose first 10
  characters after stripping leading white space contain no bullet glyph of the fixed
  set (whatever the order in which the scan visits that set).
\<close>

theorem C4_absent:
  "((text = [] \<or> list_all is_space text)
      \<longrightarrow> detect_list_item order text x_coord = Inr None)
   \<and> (text \<noteq> [] \<and> bullet_pattern text = None \<and> numbered_pattern text = None
        \<and> lettered_pattern text = None \<and> roman_pattern text = None
        \<and> set order = BULLET_CHARS
        \<and> set (take 10 (lstrip text)) \<inter> BULLET_CHARS = {}
      \<longrightarrow> detect_list_item order text x_coord = Inr None)"
proof (intro conjI impI)
  assume "text = [] \<or> list_all is_space text"
  then have "text = [] \<or> (\<forall>c\<in>set text. is_space c)"
    by (simp add: list_all_iff)
  then show "detect_list_item order text x_coord = Inr None"
    by (rule detect_blank)
next
  assume h: "text \<noteq> [] \<and> bullet_pattern text = None \<and> numbered_pattern text = None
        \<and> lettered_pattern text = None \<and> roman_pattern text = None
        \<and> set order = BULLET_CHARS
        \<and> set (take 10 (lstrip text)) \<inter> BULLET_CHARS = {}"
  then have "\<forall>c\<in>set (take 10 (lstrip text)). c \<notin> BULLET_CHARS"
    by blast
  with h show "detect_list_item order text x_coord = Inr None"
    by (intro detect_plain) simp_all
qed

lemma Hello_world_patterns:
  "bullet_pattern (ustr ''Hello world'') = None"
  "numbered_pattern (ustr ''Hello world'') = None"
  "lettered_pattern (ustr ''Hello world'') = None"
  "roman_pattern (ustr ''Hello world'') = None"
  by (simp_all add: rx_defs chr_defs bullet_pattern_def numbered_pattern_def
      lettered_pattern_def roman_pattern_def)

lemma Hello_world_window:
  "set (take 10 (lstrip (ustr ''Hello world''))) \<inter> BULLET_CHARS = {}"
  by (simp add: lstrip_def chr_defs BULLET_CHARS_def bullet_chars_def)

lemma blanks_are_space: "list_all is_space (ustr ''   '')"
  by (simp add: chr_defs)

theorem C4_absent_witness:
  "list_all is_space (ustr ''   '')
   \<and> detect_list_item bullet_chars (ustr ''   '') 0 = Inr None
   \<and> ustr ''Hello world'' \<noteq> []
   \<and> bullet_pattern (ustr ''Hello world'') = None
   \<and> numbered_pattern (ustr ''Hello world'') = None
   \<and> lettered_pattern (ustr ''Hello world'') = None
   \<and> roman_pattern (ustr ''Hello world'') = None
   \<and> set bullet_chars = BULLET_CHARS
   \<and> set (take 10 (lstrip (ustr ''Hello world''))) \<inter> BULLET_CHARS = {}
   \<and> detect_list_item bullet_chars (ustr ''Hello world'') 0 = Inr None"
proof -
  have ne: "ustr ''Hello world'' \<noteq> []" by (simp add: ustr_def)
  have bc: "set bullet_chars = BULLET_CHARS" by (simp add: BULLET_CHARS_def)
  show ?thesis
    using blanks_are_space Hello_world_patterns Hello_world_window ne bc
      C4_absent [of "ustr ''   ''" bullet_chars 0]
      C4_absent [of "ustr ''Hello world''" bullet_chars 0]
    by blast
qed

text \<open>
  C5, at a failing input: for the text " \<bullet>foo" (a blank, the bullet U+2022, "foo") no
  anchored pattern matches, the fallback scan finds the bullet, and the marker it returns
  is the text up to and including the bullet, leading blank included: it is not trimmed.
\<close>

theorem C5_fallback_marker_not_trimmed:
  "detect_list_item bullet_chars ([0x20, 0x2022] @ ustr ''foo'') 0 =
     Inr (Some \<lparr>item_type = BULLET, marker = [0x20, 0x2022], content = ustr ''foo'',
                level = 0, index = 0, is_continuation = False\<rparr>)
   \<and> strip [0x20, 0x2022] \<noteq> [0x20, 0x2022]"
  by (simp add: rx_defs chr_defs det_defs)


lemma detect_numbered_1_a_at_85:
  "detect_list_item bullet_chars (ustr ''1. a'') 85 =
     Inr (Some \<lparr>item_type = NUMBERED, marker = ustr ''1.'', content = ustr ''a'',
                level = 2, index = 1, is_continuation = False\<rparr>)"
  by (simp add: rx_defs chr_defs det_defs)


text \<open>
  C7, as stated, fails: the level is the floor of \<open>x_coordinate / 40\<close> and nothing
  clamps it, so a negative coordinate gives a negative level. Here
  \<open>detect("1. a", -1)\<close> returns an item of level -1.
\<close>

theorem C7_negative_level_counterexample:
  "detect_list_item bullet_chars (ustr ''1. a'') (-1) =
     Inr (Some \<lparr>item_type = NUMBERED, marker = ustr ''1.'', content = ustr ''a'',
                level = -1, index = 1, is_continuation = False\<rparr>)
   \<and> level \<lparr>item_type = NUMBERED, marker = ustr ''1.'', content = ustr ''a'',
            level = -1, index = 1, is_continuation = False\<rparr> < 0"
  by (simp add: rx_defs chr_defs det_defs)

text \<open>
  C7, amended: for every string and every \<open>x_coordinate \<ge> 0\<close> for which detect returns an
  item, the item's level is an integer greater than or equal to 0.
\<close>

theorem C7_level_nonneg:
  "0 \<le> x_coord \<Longrightarrow> detect_list_item order text x_coord = Inr (Some item)
     \<Longrightarrow> 0 \<le> level item"
  by (simp add: detect_level)

theorem C7_level_nonneg_witness:
  "(0::real) \<le> 85
   \<and> detect_list_item bullet_chars (ustr ''1. a'') 85 =
       Inr (Some \<lparr>item_type = NUMBERED, marker = ustr ''1.'', content = ustr ''a'',
                  level = 2, index = 1, is_continuation = False\<rparr>)
   \<and> 0 \<le> level \<lparr>item_type = NUMBERED, marker = ustr ''1.'', content = ustr ''a'',
                level = 2, index = 1, is_continuation = False\<rparr>"
proof -
  have h: "(0::real) \<le> 85" by simp
  show ?thesis
    using h detect_numbered_1_a_at_85
      C7_level_nonneg [OF h detect_numbered_1_a_at_85]
    by blast
qed

text \<open>
  C8. \<open>is_continuation(item)\<close> is true if and only if the item's kind equals the
  group's kind and the item's level equals the group's level; so it is false when the
  kind differs even if the level matches, and false when the level differs even if the
  kind matches.
\<close>

theorem C8_is_continuation_iff:
  "(ListGroup_is_continuation g item
      \<longleftrightarrow> item_type item = list_type g \<and> level item = group_level g)
   \<and> (item_type item \<noteq> list_type g \<and> level item = group_level g
        \<longrightarrow> \<not> ListGroup_is_continuation g item)
   \<and> (item_type item = list_type g \<and> level item \<noteq> group_level g
        \<longrightarrow> \<not> ListGroup_is_continuation g item)"
  by (simp add: ListGroup_is_continuation_def)

theorem C8_is_continuation_iff_witness:
  "ListGroup_is_continuation \<lparr>items = [], list_type = NUMBERED, group_level = 1\<rparr>
     \<lparr>item_type = NUMBERED, marker = ustr ''5.'', content = ustr ''a'',
      level = 1, index = 5, is_continuation = False\<rparr>
   \<and> \<not> ListGroup_is_continuation \<lparr>items = [], list_type = NUMBERED, group_level = 1\<rparr>
     \<lparr>item_type = BULLET, marker = ustr ''-'', content = ustr ''a'',
      level = 1, index = 0, is_continuation = False\<rparr>
   \<and> \<not> ListGroup_is_continuation \<lparr>items = [], list_type = NUMBERED, group_level = 1\<rparr>
     \<lparr>item_type = NUMBERED, marker = ustr ''5.'', content = ustr ''a'',
      level = 2, index = 5, is_continuation = False\<rparr>"
  using
    C8_is_continuation_iff [of "\<lparr>items = [], list_type = NUMBERED, group_level = 1\<rparr>"
      "\<lparr>item_type = NUMBERED, marker = ustr ''5.'', content = ustr ''a'',
        level = 1, index = 5, is_continuation = False\<rparr>"]
    C8_is_continuation_iff [of "\<lparr>items = [], list_type = NUMBERED, group_level = 1\<rparr>"
      "\<lparr>item_type = BULLET, marker = ustr ''-'', content = ustr ''a'',
        level = 1, index = 0, is_continuation = False\<rparr>"]
    C8_is_continuation_iff [of "\<lparr>items = [], list_type = NUMBERED, group_level = 1\<rparr>"
      "\<lparr>item_type = NUMBERED, marker = ustr ''5.'', content = ustr ''a'',
        level = 2, index = 5, is_continuation = False\<rparr>"]
  by simp

text \<open>
  C9. The target language does not alter the output of reconstruct: for every item,
  every translated content and every two target-language strings the results are equal
  (a raised error included).
\<close>

theorem C9_target_language_irrelevant:
  "reconstruct_list_text list_info translated_content l1 =
   reconstruct_list_text list_info translated_content l2"
  by (simp add: reconstruct_list_text_def)

text \<open>
  C10, as stated, fails: a text that starts with 4301 digits "1" followed by ". x" is
  matched by the numbered pattern, and \<open>int(match.group(1))\<close> raises the ValueError of
  CPython's limit on the length of decimal strings.
\<close>

theorem C10_long_digit_run_counterexample:
  "detect_list_item bullet_chars (replicate 4301 0x31 @ ustr ''. x'') 0 = Inl ValueError"
  by (rule long_digit_run)

text \<open>
  C10, amended: for every text whose run of decimal digits after the leading white
  space is at most 4300 digits long, every real \<open>x_coordinate\<close> and every order of the
  bullet scan, detect returns (an item or absent) and raises no error.
\<close>

theorem C10_detect_total:
  "length (takeWhile is_decimal (lstrip s)) \<le> 4300
     \<Longrightarrow> \<exists>r. detect_list_item order s x_coord = Inr r"
  by (rule detect_no_error)

theorem C10_detect_total_witness:
  "length (takeWhile is_decimal (lstrip (ustr ''2. Example''))) \<le> 4300
   \<and> (\<exists>r. detect_list_item bullet_chars (ustr ''2. Example'') 0 = Inr r)"
proof -
  have h: "length (takeWhile is_decimal (lstrip (ustr ''2. Example''))) \<le> 4300"
    by (simp add: lstrip_def chr_defs)
  show ?thesis
    using h C10_detect_total [OF h, of bullet_chars 0] by blast
qed

end
